theory Spec2Isabelle
  imports Main
begin

section \<open>HTML helpers\<close>

text \<open>
  The fields of \<open>html.Attribute\<close> and the part of \<open>html.Node\<close> that \<open>getAttr\<close> reads.
  A node is a value here: the nil pointer, on which the Go code panics, is not a node.
\<close>

record Attribute =
  Namespace :: string
  Key :: string
  Val :: string

record Node =
  Data :: string
  Attr :: "Attribute list"

text \<open>The \<open>for _, a := range n.Attr\<close> loop of \<open>getAttr\<close>: the first matching key returns.\<close>

fun getAttr_loop :: "Attribute list \<Rightarrow> string \<Rightarrow> string" where
  "getAttr_loop [] attr = ''''"
| "getAttr_loop (a # as) attr = (if Key a = attr then Val a else getAttr_loop as attr)"

definition getAttr :: "Node \<Rightarrow> string \<Rightarrow> string" where
  "getAttr n attr = getAttr_loop (Attr n) attr"

section \<open>Press releases and scrapers\<close>

text \<open>A Go \<open>error\<close> value, carrying its message.\<close>

datatype error = Error string

text \<open>
  \<open>type PressRelease struct\<close>. \<open>PubDate\<close> (a \<open>time.Time\<close>) is kept as seconds since the
  epoch. The program holds press releases through pointers and updates them in place; here
  an update returns the new value. \<open>FetchList\<close> is taken to return distinct, non-nil
  pointers.
\<close>

record PressRelease =
  Title :: string
  Source :: string
  Permalink :: string
  PubDate :: int
  Content :: string
  complete :: bool

text \<open>
  \<open>type Scraper interface\<close>. \<open>FetchList\<close> reads the network: it takes the state of the
  outside world \<open>'w\<close> and returns the new one with its result. \<open>Scrape\<close> fills in the press
  release it is given from raw HTML, in place, and returns an error or nil: here it gives
  the error, if any, and the press release as the call leaves it, also when it fails.
\<close>

record 'w Scraper =
  Name :: string
  FetchList :: "'w \<Rightarrow> (error + PressRelease list) \<times> 'w"
  Scrape :: "PressRelease \<Rightarrow> string \<Rightarrow> error option \<times> PressRelease"

text \<open>
  \<open>http.Get\<close>: an error, or a response whose body \<open>ioutil.ReadAll\<close> reads to an error or
  to the bytes of the page.
\<close>

type_synonym Response = "error + string"

type_synonym 'w http_Get = "string \<Rightarrow> 'w \<Rightarrow> (error + Response) \<times> 'w"

text \<open>
  \<open>func scrape\<close>: fetch the permalink, read the body, hand the HTML to the scraper. The
  result is the error returned (\<open>None\<close> for nil) and the press release as it is after the
  call.
\<close>

definition scrape ::
  "'w http_Get \<Rightarrow> 'w Scraper \<Rightarrow> PressRelease \<Rightarrow> 'w \<Rightarrow> (error option \<times> PressRelease) \<times> 'w" where
  "scrape get scraper pr w =
     (case get (Permalink pr) w of
        (Inl err, w') \<Rightarrow> ((Some err, pr), w')
      | (Inr resp, w') \<Rightarrow>
          (case resp of
             Inl err \<Rightarrow> ((Some err, pr), w')
           | Inr html \<Rightarrow>
               (case Scrape scraper pr html of
                  (Some err, pr') \<Rightarrow> ((Some err, pr'), w')
                | (None, pr') \<Rightarrow> ((None, pr'), w'))))"

section \<open>Running a scraper\<close>

text \<open>
  The two methods of \<open>*Store\<close> that \<open>doit\<close> calls. The source file of the store is
  missing, so \<open>doit\<close> takes the two methods as a parameter, over any type \<open>'s\<close> of stores
  and \<open>'e\<close> of events: \<open>WhichAreNew\<close> reads the store and returns the press releases to
  process, \<open>Stash\<close> returns the event and the updated store. Neither returns an error in
  the Go code.
\<close>

record ('s, 'e) StoreOps =
  WhichAreNew :: "'s \<Rightarrow> PressRelease list \<Rightarrow> PressRelease list"
  Stash :: "'s \<Rightarrow> PressRelease \<Rightarrow> 'e \<times> 's"

text \<open>
  The calls \<open>doit\<close> and the scheduler make on their collaborators, in the order made:
  \<open>scraper.FetchList()\<close>, \<open>store.WhichAreNew(prs)\<close>, the three \<open>log.Printf\<close> lines (with
  their arguments), \<open>scrape(scraper, pr)\<close>, \<open>store.Stash(pr)\<close> with the event it returned,
  \<open>sseSrv.Publish(channels, ev)\<close> and \<open>time.Sleep\<close>.
\<close>

datatype 'e call =
    FetchListCall string
  | WhichAreNewCall "PressRelease list"
  | LogReleases string nat nat
  | ScrapeCall PressRelease
  | LogError error string
  | StashCall PressRelease 'e
  | LogStashed string string
  | PublishCall "string list" 'e
  | SleepCall nat

record ('w, 's, 'e) System =
  world :: 'w
  store :: 's
  trace :: "'e call list"

text \<open>A Go function either panics, with the state it leaves behind, or returns.\<close>

datatype 'a outcome = Panicked error 'a | Returned 'a

fun state_of :: "'a outcome \<Rightarrow> 'a" where
  "state_of (Panicked err st) = st"
| "state_of (Returned st) = st"

text \<open>Lines 123 to 128 of \<open>doit\<close>: stash, log, publish on the press release's source.\<close>

definition stash_and_publish ::
  "('s, 'e) StoreOps \<Rightarrow> 'w Scraper \<Rightarrow> PressRelease \<Rightarrow> ('w, 's, 'e) System \<Rightarrow> ('w, 's, 'e) System" where
  "stash_and_publish ops scraper pr st =
     (case Stash ops (store st) pr of
        (ev, s') \<Rightarrow>
          st\<lparr>store := s',
             trace := trace st @
               [StashCall pr ev, LogStashed (Name scraper) (Permalink pr),
                PublishCall [Source pr] ev]\<rparr>)"

text \<open>The \<open>for _, pr := range pressReleases\<close> loop of \<open>doit\<close>.\<close>

fun doit_loop ::
  "'w http_Get \<Rightarrow> ('s, 'e) StoreOps \<Rightarrow> 'w Scraper \<Rightarrow> PressRelease list \<Rightarrow>
   ('w, 's, 'e) System \<Rightarrow> ('w, 's, 'e) System" where
  "doit_loop get ops scraper [] st = st"
| "doit_loop get ops scraper (pr # prs) st =
     (if \<not> complete pr then
        (case scrape get scraper pr (world st) of
           ((Some err, pr'), w') \<Rightarrow>
             doit_loop get ops scraper prs
               (st\<lparr>world := w',
                   trace := trace st @ [ScrapeCall pr, LogError err (Permalink pr')]\<rparr>)
         | ((None, pr'), w') \<Rightarrow>
             doit_loop get ops scraper prs
               (stash_and_publish ops scraper (pr'\<lparr>complete := True\<rparr>)
                  (st\<lparr>world := w', trace := trace st @ [ScrapeCall pr]\<rparr>)))
      else doit_loop get ops scraper prs (stash_and_publish ops scraper pr st))"

text \<open>\<open>func doit\<close>: a \<open>FetchList\<close> error panics before anything else is done.\<close>

definition doit ::
  "'w http_Get \<Rightarrow> ('s, 'e) StoreOps \<Rightarrow> 'w Scraper \<Rightarrow> ('w, 's, 'e) System \<Rightarrow>
   ('w, 's, 'e) System outcome" where
  "doit get ops scraper st =
     (case FetchList scraper (world st) of
        (Inl err, w') \<Rightarrow>
          Panicked err (st\<lparr>world := w', trace := trace st @ [FetchListCall (Name scraper)]\<rparr>)
      | (Inr pressReleases, w') \<Rightarrow>
          (let oldCount = length pressReleases;
               new = WhichAreNew ops (store st) pressReleases
           in Returned
               (doit_loop get ops scraper new
                 (st\<lparr>world := w',
                     trace := trace st @
                       [FetchListCall (Name scraper), WhichAreNewCall pressReleases,
                        LogReleases (Name scraper) oldCount (length new)]\<rparr>))))"

section \<open>The scheduler\<close>

text \<open>
  The \<open>for _, scraper := range scrapers\<close> loop inside the goroutine of \<open>main\<close>. Go ranges
  over a map in an order of its own choosing, so the order is an argument. A panic in
  \<open>doit\<close> is not recovered: it ends the loop, the goroutine and the process.
\<close>

fun run_scrapers ::
  "'w http_Get \<Rightarrow> ('s, 'e) StoreOps \<Rightarrow> 'w Scraper list \<Rightarrow> ('w, 's, 'e) System \<Rightarrow>
   ('w, 's, 'e) System outcome" where
  "run_scrapers get ops [] st = Returned st"
| "run_scrapers get ops (scraper # scrapers) st =
     (case doit get ops scraper st of
        Panicked err st' \<Rightarrow> Panicked err st'
      | Returned st' \<Rightarrow> run_scrapers get ops scrapers st')"

text \<open>
  The outer \<open>for { ...; time.Sleep(interval) }\<close> of the goroutine. The Go loop has no exit:
  \<open>scheduler\<close> runs one tick for each element of \<open>orders\<close> (the order in which that tick
  ranges over the scrapers) and gives the state reached, \<open>Returned\<close> when every one of these
  ticks went through and the loop is still running, \<open>Panicked\<close> when a tick panicked.
\<close>

fun scheduler ::
  "'w http_Get \<Rightarrow> ('s, 'e) StoreOps \<Rightarrow> nat \<Rightarrow> 'w Scraper list list \<Rightarrow> ('w, 's, 'e) System \<Rightarrow>
   ('w, 's, 'e) System outcome" where
  "scheduler get ops interval [] st = Returned st"
| "scheduler get ops interval (order # orders) st =
     (case run_scrapers get ops order st of
        Panicked err st' \<Rightarrow> Panicked err st'
      | Returned st' \<Rightarrow>
          scheduler get ops interval orders (st'\<lparr>trace := trace st' @ [SleepCall interval]\<rparr>))"

text \<open>The calls made between two states of one run.\<close>

definition calls_since :: "('w, 's, 'e) System \<Rightarrow> ('w, 's, 'e) System \<Rightarrow> 'e call list" where
  "calls_since st st' = drop (length (trace st)) (trace st')"

section \<open>The event store\<close>

text \<open>
  Modelled from the spec: the Event Store (\<open>NewStore\<close>, \<open>Store.WhichAreNew\<close>,
  \<open>Store.Stash\<close>, \<open>Store.Replay\<close>), whose source file is missing. A persisted event is a
  sequence identifier, the topic and the press release stored (the storage timestamp, which
  no operation reads, is left out). The durable storage is the list of persisted events in
  the order they were accepted; nothing is ever changed or deleted.
\<close>

record PersistedEvent =
  ev_id :: nat
  ev_topic :: string
  ev_payload :: PressRelease

record Store =
  db :: "PersistedEvent list"

text \<open>
  Modelled from the spec: opening the store over an existing storage. The store keeps no
  state of its own beside the storage, so a restart is \<open>NewStore (db s)\<close>.
\<close>

definition NewStore :: "PersistedEvent list \<Rightarrow> Store" where
  "NewStore rows = \<lparr>db = rows\<rparr>"

text \<open>Modelled from the spec: the greatest identifier in the storage, 0 when it is empty.\<close>

definition last_id :: "PersistedEvent list \<Rightarrow> nat" where
  "last_id rows = fold max (map ev_id rows) 0"

text \<open>
  Modelled from the spec: \<open>append\<close> (\<open>Store.Stash\<close>) allocates the next sequence identifier
  and stores the item under it; the first identifier is 1. Storage failures are not part
  of the model: every call succeeds.
\<close>

definition Store_Stash :: "Store \<Rightarrow> PressRelease \<Rightarrow> PersistedEvent \<times> Store" where
  "Store_Stash s pr =
     (let ev = \<lparr>ev_id = Suc (last_id (db s)), ev_topic = Source pr, ev_payload = pr\<rparr>
      in (ev, s\<lparr>db := db s @ [ev]\<rparr>))"

text \<open>
  Modelled from the spec: \<open>filterNew\<close> (\<open>Store.WhichAreNew\<close>) keeps, in input order, the
  candidates whose (topic, permalink) pair has never been persisted; it writes nothing.
\<close>

definition persisted :: "Store \<Rightarrow> PressRelease \<Rightarrow> bool" where
  "persisted s pr =
     list_ex (\<lambda>e. ev_topic e = Source pr \<and> Permalink (ev_payload e) = Permalink pr) (db s)"

definition Store_WhichAreNew :: "Store \<Rightarrow> PressRelease list \<Rightarrow> PressRelease list" where
  "Store_WhichAreNew s prs = filter (\<lambda>pr. \<not> persisted s pr) prs"

text \<open>
  Modelled from the spec: \<open>replaySince\<close> (\<open>Store.Replay\<close>) gives the persisted events of the
  topic with an identifier greater than the cursor, all of the topic's events when the
  cursor is "none", in storage order.
\<close>

definition after_cursor :: "nat option \<Rightarrow> PersistedEvent \<Rightarrow> bool" where
  "after_cursor cursor e = (case cursor of None \<Rightarrow> True | Some c \<Rightarrow> c < ev_id e)"

definition Store_Replay :: "Store \<Rightarrow> string \<Rightarrow> nat option \<Rightarrow> PersistedEvent list" where
  "Store_Replay s topic cursor = filter (\<lambda>e. ev_topic e = topic \<and> after_cursor cursor e) (db s)"

text \<open>The store as \<open>doit\<close> uses it.\<close>

definition store_ops :: "(Store, PersistedEvent) StoreOps" where
  "store_ops = \<lparr>WhichAreNew = Store_WhichAreNew, Stash = Store_Stash\<rparr>"

text \<open>Persisting a sequence of items one after the other.\<close>

fun stash_all :: "PressRelease list \<Rightarrow> Store \<Rightarrow> Store" where
  "stash_all [] s = s"
| "stash_all (pr # prs) s = stash_all prs (snd (Store_Stash s pr))"

text \<open>
  A history of the store: calls of \<open>Store_Stash\<close> and restarts of the process over the same
  storage. \<open>run_ops\<close> gives the identifiers assigned, in the order of the calls.
\<close>

datatype store_op = Append PressRelease | Restart

fun run_ops :: "store_op list \<Rightarrow> Store \<Rightarrow> nat list \<times> Store" where
  "run_ops [] s = ([], s)"
| "run_ops (Append pr # ops) s =
     (case Store_Stash s pr of
        (ev, s') \<Rightarrow> (case run_ops ops s' of (ids, s'') \<Rightarrow> (ev_id ev # ids, s'')))"
| "run_ops (Restart # ops) s = run_ops ops (NewStore (db s))"

section \<open>The broadcast hub\<close>

text \<open>
  Modelled from the spec: the Broadcast Hub (the \<open>eventsource\<close> server behind
  \<open>sseSrv.Register\<close>, \<open>sseSrv.Handler\<close> and \<open>sseSrv.Publish\<close>), whose source is missing.
  A subscription is bound to one topic and records what has been delivered to it. The
  cursor is the optional sequence identifier given at connect time.
\<close>

record Subscription =
  sub_topic :: string
  delivered :: "PersistedEvent list"

type_synonym Hub = "Subscription list"

text \<open>
  Modelled from the spec: \<open>subscribe\<close>. With a cursor the backlog \<open>replaySince(topic, cursor)\<close>
  is delivered first; without one no backlog is sent. The cursor 0 is a cursor like any
  other: the package comment of \<open>main.go\<close> has \<open>Last-Event-ID: 0\<close> serve all the stored
  press releases, and only a client without the header served new ones alone. The new
  subscription is the last of the hub.
\<close>

definition subscribe :: "Store \<Rightarrow> string \<Rightarrow> nat option \<Rightarrow> Hub \<Rightarrow> Hub" where
  "subscribe s topic cursor hub =
     hub @ [\<lparr>sub_topic = topic,
             delivered = (case cursor of None \<Rightarrow> [] | Some c \<Rightarrow> Store_Replay s topic (Some c))\<rparr>]"

text \<open>Modelled from the spec: \<open>publish\<close> delivers once to each subscription of the topic.\<close>

definition publish :: "string \<Rightarrow> PersistedEvent \<Rightarrow> Hub \<Rightarrow> Hub" where
  "publish topic ev hub =
     map (\<lambda>sub. if sub_topic sub = topic then sub\<lparr>delivered := delivered sub @ [ev]\<rparr> else sub) hub"

fun publish_all :: "(string \<times> PersistedEvent) list \<Rightarrow> Hub \<Rightarrow> Hub" where
  "publish_all [] hub = hub"
| "publish_all ((topic, ev) # pubs) hub = publish_all pubs (publish topic ev hub)"

section \<open>The order of the calls of a cycle\<close>

text \<open>
  The calls a cycle makes for the items \<open>ps\<close> left by \<open>WhichAreNew\<close>, item by item and
  in the order of \<open>ps\<close>, with the store before (\<open>s\<close>) and after (\<open>s'\<close>): an incomplete
  item is scraped first and, when that fails, the error is logged and the item left alone;
  a complete item, or the item \<open>p'\<close> as completed by the scrape, is stashed, and the event
  that \<open>Stash\<close> returned is then published on the item's source.
\<close>

inductive item_steps ::
  "('s, 'e) StoreOps \<Rightarrow> string \<Rightarrow> 's \<Rightarrow> PressRelease list \<Rightarrow> 'e call list \<Rightarrow> 's \<Rightarrow> bool"
  for ops :: "('s, 'e) StoreOps" and n :: string where
  no_items: "item_steps ops n s [] [] s"
| skipped:
    "\<not> complete p \<Longrightarrow> item_steps ops n s ps tr s' \<Longrightarrow>
     item_steps ops n s (p # ps) (ScrapeCall p # LogError err url # tr) s'"
| completed:
    "\<not> complete p \<Longrightarrow> complete p' \<Longrightarrow> Stash ops s p' = (ev, s1) \<Longrightarrow>
     item_steps ops n s1 ps tr s' \<Longrightarrow>
     item_steps ops n s (p # ps)
       (ScrapeCall p # StashCall p' ev # LogStashed n (Permalink p') #
        PublishCall [Source p'] ev # tr) s'"
| as_listed:
    "complete p \<Longrightarrow> Stash ops s p = (ev, s1) \<Longrightarrow> item_steps ops n s1 ps tr s' \<Longrightarrow>
     item_steps ops n s (p # ps)
       (StashCall p ev # LogStashed n (Permalink p) # PublishCall [Source p] ev # tr) s'"

text \<open>
  Every stashed press release is complete, and every published event was stashed before.
\<close>

definition stashes_complete :: "'e call list \<Rightarrow> bool" where
  "stashes_complete tr \<longleftrightarrow>
     (\<forall>pr ev. StashCall pr ev \<in> set tr \<longrightarrow> complete pr) \<and>
     (\<forall>ch ev. PublishCall ch ev \<in> set tr \<longrightarrow>
        (\<exists>pr. complete pr \<and> StashCall pr ev \<in> set tr \<and> ch = [Source pr]))"

text \<open>
  The calls of one cycle: the call of \<open>FetchList\<close> that opens it, and no second one.
\<close>

fun is_FetchListCall :: "'e call \<Rightarrow> bool" where
  "is_FetchListCall (FetchListCall n) = True"
| "is_FetchListCall c = False"

definition one_cycle :: "'e call list \<Rightarrow> bool" where
  "one_cycle b = (case b of [] \<Rightarrow> False | c # cs \<Rightarrow> is_FetchListCall c \<and> \<not> list_ex is_FetchListCall cs)"

text \<open>
  Each cycle of a tick run on its own, from an empty trace, in the world and store the
  cycle before it left: the list of the calls of each cycle. A panic ends the tick.
\<close>

fun cycle_traces ::
  "'w http_Get \<Rightarrow> ('s, 'e) StoreOps \<Rightarrow> 'w Scraper list \<Rightarrow> ('w, 's, 'e) System \<Rightarrow>
   'e call list list" where
  "cycle_traces get ops [] st = []"
| "cycle_traces get ops (scraper # scrapers) st =
     (case doit get ops scraper (st\<lparr>trace := []\<rparr>) of
        Panicked err st' \<Rightarrow> [trace st']
      | Returned st' \<Rightarrow> trace st' # cycle_traces get ops scrapers st')"

text \<open>
  The same for the scheduler: the cycles of each tick, then the sleep that ends the tick.
\<close>

fun scheduler_blocks ::
  "'w http_Get \<Rightarrow> ('s, 'e) StoreOps \<Rightarrow> nat \<Rightarrow> 'w Scraper list list \<Rightarrow> ('w, 's, 'e) System \<Rightarrow>
   'e call list list" where
  "scheduler_blocks get ops interval [] st = []"
| "scheduler_blocks get ops interval (order # orders) st =
     cycle_traces get ops order st @
     (case run_scrapers get ops order st of
        Panicked err st' \<Rightarrow> []
      | Returned st' \<Rightarrow> [SleepCall interval] # scheduler_blocks get ops interval orders st')"

text \<open>
  Putting earlier calls in front of the trace of an outcome.
\<close>

fun prepend_trace ::
  "'e call list \<Rightarrow> ('w, 's, 'e) System outcome \<Rightarrow> ('w, 's, 'e) System outcome" where
  "prepend_trace t (Panicked err st) = Panicked err (st\<lparr>trace := t @ trace st\<rparr>)"
| "prepend_trace t (Returned st) = Returned (st\<lparr>trace := t @ trace st\<rparr>)"

section \<open>Example scrapers, press releases and histories\<close>

text \<open>
  A world that counts the requests made. Of the three press releases listed by the
  \<open>waitrose\<close> scraper, the first is incomplete and its page can be fetched, the second is
  incomplete and its page cannot, the third is complete as listed. The listing of the
  \<open>72point\<close> scraper fails.
\<close>

definition pr_one :: PressRelease where
  "pr_one = \<lparr>Title = '''', Source = ''waitrose'', Permalink = ''http://a/1'', PubDate = 0,
             Content = '''', complete = False\<rparr>"

definition pr_two :: PressRelease where
  "pr_two = \<lparr>Title = '''', Source = ''waitrose'', Permalink = ''http://a/2'', PubDate = 0,
             Content = '''', complete = False\<rparr>"

definition pr_three :: PressRelease where
  "pr_three = \<lparr>Title = ''Three'', Source = ''waitrose'', Permalink = ''http://a/3'', PubDate = 3,
               Content = ''Body'', complete = True\<rparr>"

definition demo_get :: "nat http_Get" where
  "demo_get url w =
     (if url = ''http://a/1'' then (Inr (Inr ''One''), Suc w)
      else (Inl (Error ''connection refused''), Suc w))"

definition demo_scraper :: "nat Scraper" where
  "demo_scraper =
     \<lparr>Name = ''waitrose'',
      FetchList = (\<lambda>w. (Inr [pr_one, pr_two, pr_three], Suc w)),
      Scrape = (\<lambda>pr html. (None, pr\<lparr>Title := html\<rparr>))\<rparr>"

definition down_scraper :: "nat Scraper" where
  "down_scraper =
     \<lparr>Name = ''72point'',
      FetchList = (\<lambda>w. (Inl (Error ''listing failed''), Suc w)),
      Scrape = (\<lambda>pr html. (Some (Error ''no title''), pr))\<rparr>"

definition demo_start :: "(nat, Store, PersistedEvent) System" where
  "demo_start = \<lparr>world = 0, store = NewStore [], trace = []\<rparr>"

definition ev_three :: PersistedEvent where
  "ev_three = \<lparr>ev_id = 2, ev_topic = ''waitrose'', ev_payload = pr_three\<rparr>"

text \<open>
  Two press releases of the topic \<open>tesco\<close>, an event persisted by an earlier run, an event
  published later, and a history of the store with a restart in it.
\<close>

definition tesco_one :: PressRelease where
  "tesco_one = \<lparr>Title = ''One'', Source = ''tesco'', Permalink = ''http://a/1'', PubDate = 1,
                Content = ''First'', complete = True\<rparr>"

definition tesco_two :: PressRelease where
  "tesco_two = \<lparr>Title = ''Two'', Source = ''tesco'', Permalink = ''http://a/2'', PubDate = 2,
                Content = ''Second'', complete = True\<rparr>"

definition old_event :: PersistedEvent where
  "old_event = \<lparr>ev_id = 5, ev_topic = ''tesco'', ev_payload = tesco_one\<rparr>"

definition new_event :: PersistedEvent where
  "new_event = \<lparr>ev_id = 9, ev_topic = ''tesco'', ev_payload = tesco_two\<rparr>"

definition demo_ops :: "store_op list" where
  "demo_ops = [Append tesco_one, Restart, Append pr_three, Append tesco_two]"

lemmas demo_defs = pr_one_def pr_two_def pr_three_def demo_get_def demo_scraper_def
  down_scraper_def demo_start_def store_ops_def NewStore_def Store_Stash_def Store_WhichAreNew_def
  persisted_def last_id_def scrape_def doit_def stash_and_publish_def calls_since_def Let_def

lemmas store_defs = tesco_one_def tesco_two_def pr_one_def pr_three_def old_event_def demo_ops_def
  NewStore_def Store_Stash_def Store_WhichAreNew_def Store_Replay_def after_cursor_def
  persisted_def last_id_def subscribe_def publish_def Let_def

section \<open>Properties of the HTML helpers\<close>

lemma getAttr_loop_absent:
  "\<forall>b\<in>set as. Key b \<noteq> attr \<Longrightarrow> getAttr_loop as attr = ''''"
  by (induction as) auto

lemma getAttr_loop_first:
  "\<forall>b\<in>set pre. Key b \<noteq> attr \<Longrightarrow> Key a = attr \<Longrightarrow>
   getAttr_loop (pre @ a # post) attr = Val a"
  by (induction pre) auto

text \<open>
  C10. For every node \<open>n\<close> and attribute name \<open>attr\<close>, \<open>getAttr n attr\<close> is the value of the
  first attribute of \<open>n\<close> whose key equals \<open>attr\<close> (every attribute before it has another key),
  and the empty string when no attribute of \<open>n\<close> has that key.
\<close>

theorem getAttr_first_match:
  "(\<forall>pre a post. Attr n = pre @ a # post \<and> Key a = attr \<and> (\<forall>b\<in>set pre. Key b \<noteq> attr)
      \<longrightarrow> getAttr n attr = Val a)
   \<and> ((\<forall>b\<in>set (Attr n). Key b \<noteq> attr) \<longrightarrow> getAttr n attr = '''')"
  by (simp add: getAttr_def getAttr_loop_absent getAttr_loop_first)

theorem getAttr_first_match_witness:
  "getAttr \<lparr>Data = ''a'', Attr =
      [\<lparr>Namespace = '''', Key = ''class'', Val = ''link''\<rparr>,
       \<lparr>Namespace = '''', Key = ''href'', Val = ''/one''\<rparr>,
       \<lparr>Namespace = '''', Key = ''href'', Val = ''/two''\<rparr>]\<rparr> ''href'' = ''/one''
   \<and> getAttr \<lparr>Data = ''a'', Attr =
      [\<lparr>Namespace = '''', Key = ''class'', Val = ''link''\<rparr>]\<rparr> ''href'' = ''''"
proof -
  let ?c = "\<lparr>Namespace = '''', Key = ''class'', Val = ''link''\<rparr>"
  let ?h1 = "\<lparr>Namespace = '''', Key = ''href'', Val = ''/one''\<rparr>"
  let ?h2 = "\<lparr>Namespace = '''', Key = ''href'', Val = ''/two''\<rparr>"
  let ?n = "\<lparr>Data = ''a'', Attr = [?c, ?h1, ?h2]\<rparr>"
  let ?m = "\<lparr>Data = ''a'', Attr = [?c]\<rparr>"
  have a: "Attr ?n = [?c] @ ?h1 # [?h2] \<and> Key ?h1 = ''href'' \<and> (\<forall>b\<in>set [?c]. Key b \<noteq> ''href'')"
    by simp
  have b: "\<forall>b\<in>set (Attr ?m). Key b \<noteq> ''href''"
    by simp
  from getAttr_first_match [of ?n "''href''"] a have "getAttr ?n ''href'' = Val ?h1"
    by blast
  moreover from getAttr_first_match [of ?m "''href''"] b have "getAttr ?m ''href'' = ''''"
    by blast
  ultimately show ?thesis by simp
qed

section \<open>Properties of a cycle\<close>

lemma doit_loop_steps:
  "\<exists>tr. trace (doit_loop get ops sc prs st) = trace st @ tr \<and>
        item_steps ops (Name sc) (store st) prs tr (store (doit_loop get ops sc prs st))"
proof (induction prs arbitrary: st)
  case Nil
  show ?case by (simp add: item_steps.no_items)
next
  case (Cons pr prs)
  show ?case
  proof (cases "complete pr")
    case True
    obtain ev s1 where S: "Stash ops (store st) pr = (ev, s1)" by (cases "Stash ops (store st) pr")
    let ?st1 = "stash_and_publish ops sc pr st"
    from Cons.IH [of ?st1] obtain tr where
      T: "trace (doit_loop get ops sc prs ?st1) = trace ?st1 @ tr"
      and I: "item_steps ops (Name sc) (store ?st1) prs tr (store (doit_loop get ops sc prs ?st1))"
      by blast
    have st1: "store ?st1 = s1" using S by (simp add: stash_and_publish_def)
    have "item_steps ops (Name sc) (store st) (pr # prs)
            (StashCall pr ev # LogStashed (Name sc) (Permalink pr) # PublishCall [Source pr] ev # tr)
            (store (doit_loop get ops sc prs ?st1))"
      using item_steps.as_listed [OF True S] I st1 by simp
    moreover have "trace (doit_loop get ops sc prs ?st1) =
        trace st @ StashCall pr ev # LogStashed (Name sc) (Permalink pr) # PublishCall [Source pr] ev # tr"
      using T S by (simp add: stash_and_publish_def)
    ultimately show ?thesis using True by auto
  next
    case False
    obtain r pr' w' where R: "scrape get sc pr (world st) = ((r, pr'), w')"
      by (cases "scrape get sc pr (world st)") auto
    show ?thesis
    proof (cases r)
      case (Some err)
      let ?st1 = "st\<lparr>world := w', trace := trace st @ [ScrapeCall pr, LogError err (Permalink pr')]\<rparr>"
      from Cons.IH [of ?st1] obtain tr where
        T: "trace (doit_loop get ops sc prs ?st1) = trace ?st1 @ tr"
        and I: "item_steps ops (Name sc) (store ?st1) prs tr (store (doit_loop get ops sc prs ?st1))"
        by blast
      have "item_steps ops (Name sc) (store st) (pr # prs)
              (ScrapeCall pr # LogError err (Permalink pr') # tr)
              (store (doit_loop get ops sc prs ?st1))"
        using item_steps.skipped [OF False] I by simp
      then show ?thesis using False R Some T by auto
    next
      case None
      let ?p = "pr'\<lparr>complete := True\<rparr>"
      let ?st0 = "st\<lparr>world := w', trace := trace st @ [ScrapeCall pr]\<rparr>"
      let ?st1 = "stash_and_publish ops sc ?p ?st0"
      obtain ev s1 where S: "Stash ops (store st) ?p = (ev, s1)" by (cases "Stash ops (store st) ?p")
      from Cons.IH [of ?st1] obtain tr where
        T: "trace (doit_loop get ops sc prs ?st1) = trace ?st1 @ tr"
        and I: "item_steps ops (Name sc) (store ?st1) prs tr (store (doit_loop get ops sc prs ?st1))"
        by blast
      have st1: "store ?st1 = s1" using S by (simp add: stash_and_publish_def)
      have c: "complete ?p" by simp
      have "item_steps ops (Name sc) (store st) (pr # prs)
              (ScrapeCall pr # StashCall ?p ev # LogStashed (Name sc) (Permalink ?p) #
               PublishCall [Source ?p] ev # tr)
              (store (doit_loop get ops sc prs ?st1))"
        using item_steps.completed [OF False c S] I st1 by simp
      moreover have "trace (doit_loop get ops sc prs ?st1) =
          trace st @ ScrapeCall pr # StashCall ?p ev # LogStashed (Name sc) (Permalink ?p) #
               PublishCall [Source ?p] ev # tr"
        using T S by (simp add: stash_and_publish_def)
      ultimately show ?thesis using False R None by auto
    qed
  qed
qed

lemma doit_steps:
  assumes "FetchList scraper (world st) = (Inr prs, w')"
  shows "\<exists>st' tr. doit get ops scraper st = Returned st' \<and>
           trace st' = trace st @
             FetchListCall (Name scraper) # WhichAreNewCall prs #
             LogReleases (Name scraper) (length prs) (length (WhichAreNew ops (store st) prs)) # tr \<and>
           item_steps ops (Name scraper) (store st) (WhichAreNew ops (store st) prs) tr (store st')"
proof -
  let ?new = "WhichAreNew ops (store st) prs"
  let ?hd = "[FetchListCall (Name scraper), WhichAreNewCall prs,
              LogReleases (Name scraper) (length prs) (length ?new)]"
  let ?st1 = "st\<lparr>world := w', trace := trace st @ ?hd\<rparr>"
  from doit_loop_steps [of get ops scraper ?new ?st1] obtain tr where
    T: "trace (doit_loop get ops scraper ?new ?st1) = trace ?st1 @ tr"
    and I: "item_steps ops (Name scraper) (store ?st1) ?new tr (store (doit_loop get ops scraper ?new ?st1))"
    by blast
  have D: "doit get ops scraper st = Returned (doit_loop get ops scraper ?new ?st1)"
    using assms by (simp add: doit_def Let_def)
  show ?thesis using D T I by simp
qed

lemma item_steps_stash:
  "item_steps ops n s ps tr s' \<Longrightarrow> StashCall pr ev \<in> set tr \<Longrightarrow> complete pr"
  by (induction rule: item_steps.induct) auto

lemma item_steps_publish:
  "item_steps ops n s ps tr s' \<Longrightarrow> PublishCall ch ev \<in> set tr \<Longrightarrow>
   \<exists>pr. complete pr \<and> StashCall pr ev \<in> set tr \<and> ch = [Source pr]"
  by (induction rule: item_steps.induct) auto

lemma item_steps_no_fetch:
  "item_steps ops n s ps tr s' \<Longrightarrow> \<not> list_ex is_FetchListCall tr"
  by (induction rule: item_steps.induct) auto

lemma stashes_complete_append:
  "stashes_complete a \<Longrightarrow> stashes_complete b \<Longrightarrow> stashes_complete (a @ b)"
  unfolding stashes_complete_def by (metis Un_iff set_append)

lemma stashes_complete_steps:
  "item_steps ops n s ps tr s' \<Longrightarrow> stashes_complete tr"
  unfolding stashes_complete_def using item_steps_stash item_steps_publish by fast

lemma doit_calls:
  fixes ops :: "('s, 'e) StoreOps"
  shows "\<exists>tr. trace (state_of (doit get ops sc st)) = trace st @ tr \<and> stashes_complete tr"
proof (cases "FetchList sc (world st)")
  case (Pair r w')
  show ?thesis
  proof (cases r)
    case (Inl err)
    have "stashes_complete [FetchListCall (Name sc) :: 'e call]"
      by (simp add: stashes_complete_def)
    then show ?thesis using Pair Inl by (simp add: doit_def)
  next
    case (Inr prs)
    let ?new = "WhichAreNew ops (store st) prs"
    let ?hd = "[FetchListCall (Name sc), WhichAreNewCall prs,
                LogReleases (Name sc) (length prs) (length ?new)]"
    let ?st1 = "st\<lparr>world := w', trace := trace st @ ?hd\<rparr>"
    from doit_loop_steps [of get ops sc ?new ?st1] obtain tr where
      T: "trace (doit_loop get ops sc ?new ?st1) = trace ?st1 @ tr"
      and I: "item_steps ops (Name sc) (store ?st1) ?new tr (store (doit_loop get ops sc ?new ?st1))"
      by blast
    have "stashes_complete ?hd" by (simp add: stashes_complete_def)
    with stashes_complete_steps [OF I] have "stashes_complete (?hd @ tr)"
      by (rule stashes_complete_append [rotated])
    moreover have "trace (state_of (doit get ops sc st)) = trace st @ ?hd @ tr"
      using Pair Inr T by (simp add: doit_def Let_def)
    ultimately show ?thesis by blast
  qed
qed

lemma run_scrapers_calls:
  fixes ops :: "('s, 'e) StoreOps"
  shows "\<exists>tr. trace (state_of (run_scrapers get ops scs st)) = trace st @ tr \<and> stashes_complete tr"
proof (induction scs arbitrary: st)
  case Nil
  show ?case by (simp add: stashes_complete_def)
next
  case (Cons sc scs)
  from doit_calls [of get ops sc st] obtain tr where
    T: "trace (state_of (doit get ops sc st)) = trace st @ tr" and C: "stashes_complete tr"
    by blast
  show ?case
  proof (cases "doit get ops sc st")
    case (Panicked err st')
    then show ?thesis using T C by auto
  next
    case (Returned st')
    from Cons.IH [of st'] obtain tr' where
      T': "trace (state_of (run_scrapers get ops scs st')) = trace st' @ tr'"
      and C': "stashes_complete tr'" by blast
    have "trace (state_of (run_scrapers get ops (sc # scs) st)) = trace st @ tr @ tr'"
      using Returned T T' by simp
    then show ?thesis using stashes_complete_append [OF C C'] by blast
  qed
qed

lemma scheduler_calls:
  fixes ops :: "('s, 'e) StoreOps"
  shows "\<exists>tr. trace (state_of (scheduler get ops iv orders st)) = trace st @ tr \<and> stashes_complete tr"
proof (induction orders arbitrary: st)
  case Nil
  show ?case by (simp add: stashes_complete_def)
next
  case (Cons ord orders)
  from run_scrapers_calls [of get ops ord st] obtain tr where
    T: "trace (state_of (run_scrapers get ops ord st)) = trace st @ tr" and C: "stashes_complete tr"
    by blast
  show ?case
  proof (cases "run_scrapers get ops ord st")
    case (Panicked err st')
    then show ?thesis using T C by auto
  next
    case (Returned st')
    let ?st1 = "st'\<lparr>trace := trace st' @ [SleepCall iv]\<rparr>"
    from Cons.IH [of ?st1] obtain tr' where
      T': "trace (state_of (scheduler get ops iv orders ?st1)) = trace ?st1 @ tr'"
      and C': "stashes_complete tr'" by blast
    have S: "stashes_complete [SleepCall iv :: 'e call]" by (simp add: stashes_complete_def)
    have "trace (state_of (scheduler get ops iv (ord # orders) st)) = trace st @ tr @ [SleepCall iv] @ tr'"
      using Returned T T' by simp
    then show ?thesis
      using stashes_complete_append [OF C stashes_complete_append [OF S C']] by blast
  qed
qed

lemma doit_loop_append:
  "doit_loop get ops sc (pre @ post) st = doit_loop get ops sc post (doit_loop get ops sc pre st)"
  by (induction pre arbitrary: st) (auto split: prod.splits option.splits)

lemma run_scrapers_append:
  "run_scrapers get ops (pre @ post) st =
     (case run_scrapers get ops pre st of
        Panicked err st' \<Rightarrow> Panicked err st'
      | Returned st' \<Rightarrow> run_scrapers get ops post st')"
  by (induction pre arbitrary: st) (auto split: outcome.splits)

text \<open>
  C2 (as amended). When \<open>FetchList\<close> returns an error, \<open>doit\<close> panics with that error
  after the call of \<open>FetchList\<close> alone: nothing is filtered, scraped, stashed or published and
  the store is unchanged. The panic is not recovered: the tick and the scheduler end with
  it, whatever scrapers (\<open>rest\<close>) and ticks (\<open>orders\<close>) were still to run, so there is
  no retry. Here \<open>st1\<close> is the state in which the failing cycle starts, after the scrapers
  \<open>pre\<close> of the same tick.
\<close>

theorem fetchlist_error_panics:
  assumes "run_scrapers get ops pre st = Returned st1"
    and "FetchList scraper (world st1) = (Inl err, w')"
  shows "doit get ops scraper st1 =
           Panicked err (st1\<lparr>world := w', trace := trace st1 @ [FetchListCall (Name scraper)]\<rparr>)
       \<and> scheduler get ops iv ((pre @ scraper # rest) # orders) st =
           Panicked err (st1\<lparr>world := w', trace := trace st1 @ [FetchListCall (Name scraper)]\<rparr>)"
  using assms by (simp add: run_scrapers_append doit_def)

lemma demo_cycle:
  "run_scrapers demo_get store_ops [demo_scraper] demo_start =
   Returned (state_of (run_scrapers demo_get store_ops [demo_scraper] demo_start))"
  by (simp add: demo_defs)

lemma demo_cycle_world:
  "world (state_of (run_scrapers demo_get store_ops [demo_scraper] demo_start)) = 3"
  by (simp add: demo_defs)

theorem fetchlist_error_panics_witness:
  "scheduler demo_get store_ops 600 [[demo_scraper, down_scraper, demo_scraper], [demo_scraper]]
     demo_start =
   Panicked (Error ''listing failed'')
     ((state_of (run_scrapers demo_get store_ops [demo_scraper] demo_start))
        \<lparr>world := 4,
         trace := trace (state_of (run_scrapers demo_get store_ops [demo_scraper] demo_start)) @
                  [FetchListCall ''72point'']\<rparr>)"
proof -
  let ?st1 = "state_of (run_scrapers demo_get store_ops [demo_scraper] demo_start)"
  have f: "FetchList down_scraper (world ?st1) = (Inl (Error ''listing failed''), 4)"
    unfolding demo_cycle_world by (simp add: down_scraper_def)
  have n: "Name down_scraper = ''72point''" by (simp add: down_scraper_def)
  from fetchlist_error_panics [OF demo_cycle f, of 600 "[demo_scraper]" "[[demo_scraper]]"]
  show ?thesis unfolding n by simp
qed

text \<open>
  C2 fails as stated: with two ticks scheduled for a scraper whose listing fails, the first
  tick panics, the process is gone, and \<open>FetchList\<close> is called once, not twice.
\<close>

theorem fetchlist_error_crashes:
  "scheduler demo_get store_ops 600 [[down_scraper], [down_scraper]] demo_start =
   Panicked (Error ''listing failed'')
     \<lparr>world = 1, store = NewStore [], trace = [FetchListCall ''72point'']\<rparr>"
  by (simp add: demo_defs)

text \<open>
  C6. When the loop of \<open>doit\<close> reaches an incomplete item \<open>pr\<close> (after the items
  \<open>pre\<close>, in state \<open>st1\<close>) and its scrape fails, be it the fetch, the read of the body or
  the extraction, the item is skipped: the only calls made for it are the scrape and the
  log line with the error and the permalink, the store is left as it was (nothing is
  stashed or published), and the loop goes on with the remaining items \<open>post\<close>.
\<close>

theorem failed_item_skipped:
  assumes "\<not> complete pr"
    and "doit_loop get ops scraper pre st = st1"
    and "scrape get scraper pr (world st1) = ((Some err, pr'), w')"
  shows "doit_loop get ops scraper (pre @ pr # post) st =
         doit_loop get ops scraper post
           (st1\<lparr>world := w', trace := trace st1 @ [ScrapeCall pr, LogError err (Permalink pr')]\<rparr>)"
  using assms by (simp add: doit_loop_append)

theorem failed_item_skipped_witness:
  "doit_loop demo_get store_ops demo_scraper [pr_one, pr_two, pr_three] demo_start =
   doit_loop demo_get store_ops demo_scraper [pr_three]
     ((doit_loop demo_get store_ops demo_scraper [pr_one] demo_start)
        \<lparr>world := 2,
         trace := trace (doit_loop demo_get store_ops demo_scraper [pr_one] demo_start) @
                  [ScrapeCall pr_two, LogError (Error ''connection refused'') ''http://a/2'']\<rparr>)"
proof -
  let ?st1 = "doit_loop demo_get store_ops demo_scraper [pr_one] demo_start"
  have c: "\<not> complete pr_two" by (simp add: pr_two_def)
  have w: "world ?st1 = 1" by (simp add: demo_defs)
  have s: "scrape demo_get demo_scraper pr_two (world ?st1) =
      ((Some (Error ''connection refused''), pr_two), 2)"
    unfolding w by (simp add: scrape_def demo_get_def pr_two_def)
  have p: "Permalink pr_two = ''http://a/2''" by (simp add: pr_two_def)
  from failed_item_skipped [OF c refl s, of "[pr_three]"] show ?thesis unfolding p by simp
qed

text \<open>
  C7. The calls of every cycle come in a fixed order. When the listing fails, the cycle is
  the call of \<open>FetchList\<close> alone. Otherwise \<open>doit\<close> returns and its calls are
  \<open>FetchList\<close>, then \<open>WhichAreNew\<close> on the list fetched, then the log line with the two
  counts, then the steps of the items that \<open>WhichAreNew\<close> returned, in order: for each
  item the scrape (only when the item is incomplete), then \<open>Stash\<close>, then the log line, then
  \<open>Publish\<close> of the very event that \<open>Stash\<close> returned. So an event is published only
  after the store has accepted it, and only items returned by \<open>WhichAreNew\<close> are stashed
  or published.
\<close>

theorem doit_call_order:
  "(\<forall>err w'. FetchList scraper (world st) = (Inl err, w') \<longrightarrow>
      calls_since st (state_of (doit get ops scraper st)) = [FetchListCall (Name scraper)])
   \<and> (\<forall>prs w'. FetchList scraper (world st) = (Inr prs, w') \<longrightarrow>
      (\<exists>st' tr. doit get ops scraper st = Returned st' \<and>
         calls_since st st' =
           FetchListCall (Name scraper) # WhichAreNewCall prs #
           LogReleases (Name scraper) (length prs) (length (WhichAreNew ops (store st) prs)) # tr \<and>
         item_steps ops (Name scraper) (store st) (WhichAreNew ops (store st) prs) tr (store st')))"
proof (intro conjI allI impI)
  fix err w'
  assume "FetchList scraper (world st) = (Inl err, w')"
  then show "calls_since st (state_of (doit get ops scraper st)) = [FetchListCall (Name scraper)]"
    by (simp add: doit_def calls_since_def)
next
  fix prs w'
  assume "FetchList scraper (world st) = (Inr prs, w')"
  from doit_steps [OF this, of get ops] obtain st' tr where
    D: "doit get ops scraper st = Returned st'"
    and T: "trace st' = trace st @ FetchListCall (Name scraper) # WhichAreNewCall prs #
           LogReleases (Name scraper) (length prs) (length (WhichAreNew ops (store st) prs)) # tr"
    and I: "item_steps ops (Name scraper) (store st) (WhichAreNew ops (store st) prs) tr (store st')"
    by blast
  from T have "calls_since st st' = FetchListCall (Name scraper) # WhichAreNewCall prs #
           LogReleases (Name scraper) (length prs) (length (WhichAreNew ops (store st) prs)) # tr"
    by (simp add: calls_since_def)
  with D I show "\<exists>st' tr. doit get ops scraper st = Returned st' \<and>
         calls_since st st' =
           FetchListCall (Name scraper) # WhichAreNewCall prs #
           LogReleases (Name scraper) (length prs) (length (WhichAreNew ops (store st) prs)) # tr \<and>
         item_steps ops (Name scraper) (store st) (WhichAreNew ops (store st) prs) tr (store st')"
    by blast
qed

theorem doit_call_order_witness:
  "\<exists>st' tr. doit demo_get store_ops demo_scraper demo_start = Returned st' \<and>
     calls_since demo_start st' =
       FetchListCall ''waitrose'' # WhichAreNewCall [pr_one, pr_two, pr_three] #
       LogReleases ''waitrose'' 3 3 # tr \<and>
     item_steps store_ops ''waitrose'' (NewStore []) [pr_one, pr_two, pr_three] tr (store st')"
proof -
  have f: "FetchList demo_scraper (world demo_start) = (Inr [pr_one, pr_two, pr_three], 1)"
    by (simp add: demo_scraper_def demo_start_def)
  have n: "Name demo_scraper = ''waitrose''" by (simp add: demo_scraper_def)
  have s: "store demo_start = NewStore []" by (simp add: demo_start_def)
  have w: "WhichAreNew store_ops (NewStore []) [pr_one, pr_two, pr_three] = [pr_one, pr_two, pr_three]"
    by (simp add: store_ops_def Store_WhichAreNew_def persisted_def NewStore_def)
  from doit_call_order [of demo_scraper demo_start demo_get store_ops] f
  have "\<exists>st' tr. doit demo_get store_ops demo_scraper demo_start = Returned st' \<and>
         calls_since demo_start st' =
           FetchListCall (Name demo_scraper) # WhichAreNewCall [pr_one, pr_two, pr_three] #
           LogReleases (Name demo_scraper) (length [pr_one, pr_two, pr_three])
             (length (WhichAreNew store_ops (store demo_start) [pr_one, pr_two, pr_three])) # tr \<and>
         item_steps store_ops (Name demo_scraper) (store demo_start)
           (WhichAreNew store_ops (store demo_start) [pr_one, pr_two, pr_three]) tr (store st')"
    by blast
  then show ?thesis unfolding n s w by (simp add: numeral_3_eq_3)
qed

text \<open>
  C9. In any run of the scheduler, every press release passed to \<open>Stash\<close> has its
  \<open>complete\<close> flag set, and every event published is the event of such a stashed press
  release, published on that press release's source.
\<close>

theorem stashed_items_complete:
  "(\<forall>pr ev. StashCall pr ev \<in> set (calls_since st (state_of (scheduler get ops iv orders st)))
       \<longrightarrow> complete pr)
   \<and> (\<forall>ch ev. PublishCall ch ev \<in> set (calls_since st (state_of (scheduler get ops iv orders st)))
       \<longrightarrow> (\<exists>pr. complete pr \<and> ch = [Source pr] \<and>
              StashCall pr ev \<in> set (calls_since st (state_of (scheduler get ops iv orders st)))))"
proof -
  from scheduler_calls [of get ops iv orders st] obtain tr where
    T: "trace (state_of (scheduler get ops iv orders st)) = trace st @ tr"
    and C: "stashes_complete tr" by blast
  have "calls_since st (state_of (scheduler get ops iv orders st)) = tr"
    using T by (simp add: calls_since_def)
  then show ?thesis using C unfolding stashes_complete_def by metis
qed

theorem stashed_items_complete_witness:
  "StashCall pr_three ev_three \<in>
     set (calls_since demo_start
           (state_of (scheduler demo_get store_ops 600 [[demo_scraper], [demo_scraper]] demo_start)))
   \<and> complete pr_three"
proof -
  let ?tr = "calls_since demo_start
           (state_of (scheduler demo_get store_ops 600 [[demo_scraper], [demo_scraper]] demo_start))"
  have m: "StashCall pr_three ev_three \<in> set ?tr"
    by (simp add: demo_defs ev_three_def)
  from stashed_items_complete [of demo_start demo_get store_ops 600 "[[demo_scraper], [demo_scraper]]"]
  have "\<forall>pr ev. StashCall pr ev \<in> set ?tr \<longrightarrow> complete pr" by (rule conjunct1)
  then have "complete pr_three" using m by blast
  with m show ?thesis by (rule conjI)
qed

section \<open>Cycles run one after the other\<close>

lemma stash_and_publish_frame:
  "stash_and_publish ops sc pr (st\<lparr>trace := t @ trace st\<rparr>) =
   (stash_and_publish ops sc pr st)\<lparr>trace := t @ trace (stash_and_publish ops sc pr st)\<rparr>"
  by (simp add: stash_and_publish_def split: prod.splits)

lemma doit_loop_frame:
  "doit_loop get ops sc prs (st\<lparr>trace := t @ trace st\<rparr>) =
   (doit_loop get ops sc prs st)\<lparr>trace := t @ trace (doit_loop get ops sc prs st)\<rparr>"
proof (induction prs arbitrary: st)
  case Nil
  show ?case by simp
next
  case (Cons pr prs)
  show ?case
  proof (cases "complete pr")
    case True
    then show ?thesis
      using Cons.IH [of "stash_and_publish ops sc pr st"]
      by (simp add: stash_and_publish_frame)
  next
    case False
    obtain r pr' w' where R: "scrape get sc pr (world st) = ((r, pr'), w')"
      by (cases "scrape get sc pr (world st)") auto
    show ?thesis
    proof (cases r)
      case (Some err)
      let ?st1 = "st\<lparr>world := w', trace := trace st @ [ScrapeCall pr, LogError err (Permalink pr')]\<rparr>"
      have "st\<lparr>world := w', trace := t @ trace st @ [ScrapeCall pr, LogError err (Permalink pr')]\<rparr>
            = ?st1\<lparr>trace := t @ trace ?st1\<rparr>" by simp
      then show ?thesis using False R Some Cons.IH [of ?st1] by simp
    next
      case None
      let ?st0 = "st\<lparr>world := w', trace := trace st @ [ScrapeCall pr]\<rparr>"
      let ?st1 = "stash_and_publish ops sc (pr'\<lparr>complete := True\<rparr>) ?st0"
      have "st\<lparr>world := w', trace := t @ trace st @ [ScrapeCall pr]\<rparr> = ?st0\<lparr>trace := t @ trace ?st0\<rparr>"
        by simp
      then have "stash_and_publish ops sc (pr'\<lparr>complete := True\<rparr>)
                  (st\<lparr>world := w', trace := t @ trace st @ [ScrapeCall pr]\<rparr>)
                 = ?st1\<lparr>trace := t @ trace ?st1\<rparr>"
        by (simp only: stash_and_publish_frame)
      then show ?thesis using False R None Cons.IH [of ?st1] by simp
    qed
  qed
qed

lemma doit_frame:
  "doit get ops sc (st\<lparr>trace := t @ trace st\<rparr>) = prepend_trace t (doit get ops sc st)"
proof (cases "FetchList sc (world st)")
  case (Pair r w')
  show ?thesis
  proof (cases r)
    case (Inl err)
    then show ?thesis using Pair by (simp add: doit_def)
  next
    case (Inr prs)
    let ?new = "WhichAreNew ops (store st) prs"
    let ?hd = "[FetchListCall (Name sc), WhichAreNewCall prs,
                LogReleases (Name sc) (length prs) (length ?new)]"
    let ?st1 = "st\<lparr>world := w', trace := trace st @ ?hd\<rparr>"
    have "st\<lparr>world := w', trace := t @ trace st @ ?hd\<rparr> = ?st1\<lparr>trace := t @ trace ?st1\<rparr>"
      by simp
    then have "doit_loop get ops sc ?new (st\<lparr>world := w', trace := t @ trace st @ ?hd\<rparr>) =
        (doit_loop get ops sc ?new ?st1)\<lparr>trace := t @ trace (doit_loop get ops sc ?new ?st1)\<rparr>"
      by (simp only: doit_loop_frame)
    then show ?thesis using Pair Inr by (simp add: doit_def Let_def)
  qed
qed

lemma run_scrapers_frame:
  "run_scrapers get ops scs (st\<lparr>trace := t @ trace st\<rparr>) =
   prepend_trace t (run_scrapers get ops scs st)"
proof (induction scs arbitrary: st)
  case Nil
  show ?case by simp
next
  case (Cons sc scs)
  show ?case
  proof (cases "doit get ops sc st")
    case (Panicked err st')
    then show ?thesis by (simp add: doit_frame)
  next
    case (Returned st')
    then show ?thesis using Cons.IH [of st'] by (simp add: doit_frame)
  qed
qed

lemma cycle_traces_frame:
  "cycle_traces get ops scs (st\<lparr>trace := t\<rparr>) = cycle_traces get ops scs st"
  by (cases scs) simp_all

lemma scheduler_blocks_frame_aux:
  "scheduler_blocks get ops iv orders (st\<lparr>trace := t @ trace st\<rparr>) =
   scheduler_blocks get ops iv orders st"
proof (induction orders arbitrary: st t)
  case Nil
  show ?case by simp
next
  case (Cons ord orders)
  show ?case
  proof (cases "run_scrapers get ops ord st")
    case (Panicked err st')
    then show ?thesis by (simp add: run_scrapers_frame cycle_traces_frame)
  next
    case (Returned st')
    then show ?thesis using Cons.IH [where st = st' and t = t]
      by (simp add: run_scrapers_frame cycle_traces_frame)
  qed
qed

lemma scheduler_blocks_frame:
  "scheduler_blocks get ops iv orders (st\<lparr>trace := t\<rparr>) = scheduler_blocks get ops iv orders st"
proof -
  let ?n = "st\<lparr>trace := []\<rparr>"
  have "scheduler_blocks get ops iv orders (?n\<lparr>trace := t @ trace ?n\<rparr>) =
        scheduler_blocks get ops iv orders ?n"
    by (rule scheduler_blocks_frame_aux)
  moreover have "scheduler_blocks get ops iv orders (?n\<lparr>trace := trace st @ trace ?n\<rparr>) =
        scheduler_blocks get ops iv orders ?n"
    by (rule scheduler_blocks_frame_aux)
  ultimately show ?thesis by simp
qed

lemma run_scrapers_blocks:
  "trace (state_of (run_scrapers get ops scs st)) = trace st @ concat (cycle_traces get ops scs st)"
proof (induction scs arbitrary: st)
  case Nil
  show ?case by simp
next
  case (Cons sc scs)
  let ?n = "st\<lparr>trace := []\<rparr>"
  have F: "doit get ops sc st = prepend_trace (trace st) (doit get ops sc ?n)"
    using doit_frame [where st = ?n and t = "trace st" and get = get and ops = ops and sc = sc] by simp
  show ?case
  proof (cases "doit get ops sc ?n")
    case (Panicked err st')
    then show ?thesis using F by simp
  next
    case (Returned st')
    then show ?thesis
      using F Cons.IH [of "st'\<lparr>trace := trace st @ trace st'\<rparr>"]
      by (simp add: cycle_traces_frame)
  qed
qed

lemma scheduler_trace_blocks:
  "trace (state_of (scheduler get ops iv orders st)) =
   trace st @ concat (scheduler_blocks get ops iv orders st)"
proof (induction orders arbitrary: st)
  case Nil
  show ?case by simp
next
  case (Cons ord orders)
  have R: "trace (state_of (run_scrapers get ops ord st)) =
           trace st @ concat (cycle_traces get ops ord st)"
    by (rule run_scrapers_blocks)
  show ?case
  proof (cases "run_scrapers get ops ord st")
    case (Panicked err st')
    then show ?thesis using R by simp
  next
    case (Returned st')
    then show ?thesis
      using R Cons.IH [of "st'\<lparr>trace := trace st' @ [SleepCall iv]\<rparr>"]
      by (simp add: scheduler_blocks_frame)
  qed
qed

lemma doit_one_cycle:
  fixes ops :: "('s, 'e) StoreOps"
  assumes "trace st = []"
  shows "one_cycle (trace (state_of (doit get ops sc st)))"
proof (cases "FetchList sc (world st)")
  case (Pair r w')
  show ?thesis
  proof (cases r)
    case (Inl err)
    then show ?thesis using Pair assms by (simp add: doit_def one_cycle_def)
  next
    case (Inr prs)
    from doit_steps [OF Pair [unfolded Inr], of get ops] obtain st' tr where
      D: "doit get ops sc st = Returned st'"
      and T: "trace st' = trace st @ FetchListCall (Name sc) # WhichAreNewCall prs #
             LogReleases (Name sc) (length prs) (length (WhichAreNew ops (store st) prs)) # tr"
      and I: "item_steps ops (Name sc) (store st) (WhichAreNew ops (store st) prs) tr (store st')"
      by blast
    from item_steps_no_fetch [OF I] show ?thesis
      using D T assms by (simp add: one_cycle_def)
  qed
qed

lemma cycle_traces_one_cycle:
  "\<forall>b\<in>set (cycle_traces get ops scs st). one_cycle b"
proof (induction scs arbitrary: st)
  case Nil
  show ?case by simp
next
  case (Cons sc scs)
  have O: "one_cycle (trace (state_of (doit get ops sc (st\<lparr>trace := []\<rparr>))))"
    by (rule doit_one_cycle) simp
  show ?case
  proof (cases "doit get ops sc (st\<lparr>trace := []\<rparr>)")
    case (Panicked err st')
    then show ?thesis using O by simp
  next
    case (Returned st')
    then show ?thesis using O Cons.IH [of st'] by simp
  qed
qed

lemma scheduler_blocks_one_cycle:
  "\<forall>b\<in>set (scheduler_blocks get ops iv orders st). one_cycle b \<or> b = [SleepCall iv]"
proof (induction orders arbitrary: st)
  case Nil
  show ?case by simp
next
  case (Cons ord orders)
  show ?case
  proof (cases "run_scrapers get ops ord st")
    case (Panicked err st')
    then show ?thesis using cycle_traces_one_cycle [of get ops ord st] by auto
  next
    case (Returned st')
    then show ?thesis
      using cycle_traces_one_cycle [of get ops ord st] Cons.IH [of st'] by auto
  qed
qed

text \<open>
  C8. Cycles never overlap: the scheduler is the one caller of \<open>doit\<close>, from one loop, and
  the calls of any of its runs are the calls of its cycles laid end to end. Each block is
  the whole of one cycle as it runs on its own (it opens with that cycle's \<open>FetchList\<close>
  and holds no other), or the sleep between two ticks; so every call of a cycle comes
  before the \<open>FetchList\<close> that opens the next cycle, of the same topic or of another.
\<close>

theorem cycles_do_not_overlap:
  "calls_since st (state_of (scheduler get ops iv orders st)) =
     concat (scheduler_blocks get ops iv orders st)
   \<and> (\<forall>b\<in>set (scheduler_blocks get ops iv orders st). one_cycle b \<or> b = [SleepCall iv])"
  using scheduler_trace_blocks [of get ops iv orders st]
    scheduler_blocks_one_cycle [of get ops iv orders st]
  by (simp add: calls_since_def)

theorem cycles_do_not_overlap_witness:
  "calls_since demo_start
     (state_of (scheduler demo_get store_ops 600 [[demo_scraper, down_scraper], [demo_scraper]]
        demo_start)) =
   concat (scheduler_blocks demo_get store_ops 600 [[demo_scraper, down_scraper], [demo_scraper]]
        demo_start)
   \<and> one_cycle [FetchListCall ''72point'' :: PersistedEvent call]"
proof -
  let ?orders = "[[demo_scraper, down_scraper], [demo_scraper]]"
  let ?b = "[FetchListCall ''72point'' :: PersistedEvent call]"
  have m: "?b \<in> set (scheduler_blocks demo_get store_ops 600 ?orders demo_start)"
    by (simp add: demo_defs)
  note t = cycles_do_not_overlap [of demo_start demo_get store_ops 600 ?orders]
  from t have "\<forall>b\<in>set (scheduler_blocks demo_get store_ops 600 ?orders demo_start).
      one_cycle b \<or> b = [SleepCall 600]" by (rule conjunct2)
  then have "one_cycle ?b \<or> ?b = [SleepCall 600]" using m by (rule bspec)
  then have "one_cycle ?b" by simp
  with conjunct1 [OF t] show ?thesis by (rule conjI)
qed

section \<open>Properties of the event store\<close>

lemma fold_max_ge: "(a::nat) \<le> fold max xs a \<and> (\<forall>x\<in>set xs. x \<le> fold max xs a)"
proof (induction xs arbitrary: a)
  case Nil
  show ?case by simp
next
  case (Cons y ys)
  from Cons.IH [of "max y a"] show ?case by auto
qed

lemma last_id_ge: "e \<in> set rows \<Longrightarrow> ev_id e \<le> last_id rows"
  using fold_max_ge [of 0 "map ev_id rows"] by (simp add: last_id_def)

lemma last_id_snoc: "last_id (rows @ [e]) = max (ev_id e) (last_id rows)"
  by (simp add: last_id_def)

lemma run_ops_Append_snd:
  "snd (run_ops (Append pr # ops) s) = snd (run_ops ops (snd (Store_Stash s pr)))"
  by (simp split: prod.splits)

lemma run_ops_ids:
  "sorted_wrt (<) (fst (run_ops ops s)) \<and> (\<forall>i\<in>set (fst (run_ops ops s)). last_id (db s) < i)"
proof (induction ops arbitrary: s)
  case Nil
  show ?case by simp
next
  case (Cons op ops)
  show ?case
  proof (cases op)
    case (Append pr)
    let ?ev = "\<lparr>ev_id = Suc (last_id (db s)), ev_topic = Source pr, ev_payload = pr\<rparr>"
    let ?s' = "s\<lparr>db := db s @ [?ev]\<rparr>"
    have L: "last_id (db ?s') = Suc (last_id (db s))" by (simp add: last_id_snoc)
    have R: "fst (run_ops (op # ops) s) = Suc (last_id (db s)) # fst (run_ops ops ?s')"
      using Append by (simp add: Store_Stash_def Let_def split: prod.splits)
    from Cons.IH [of ?s'] L show ?thesis unfolding R by auto
  next
    case Restart
    then show ?thesis using Cons.IH [of "NewStore (db s)"] by (simp add: NewStore_def)
  qed
qed

text \<open>
  C3. Over any history of calls of \<open>Stash\<close> and restarts, starting from any storage
  \<open>rows\<close>, the identifiers assigned are strictly increasing in the order of the calls, no
  identifier is assigned twice, and each is greater than every identifier already in the
  storage.
\<close>

theorem stash_ids_increase:
  "sorted_wrt (<) (fst (run_ops ops (NewStore rows)))
   \<and> distinct (fst (run_ops ops (NewStore rows)))
   \<and> (\<forall>i\<in>set (fst (run_ops ops (NewStore rows))). \<forall>e\<in>set rows. ev_id e < i)"
proof -
  let ?ids = "fst (run_ops ops (NewStore rows))"
  from run_ops_ids [of ops "NewStore rows"]
  have S: "sorted_wrt (<) ?ids" and G: "\<forall>i\<in>set ?ids. last_id rows < i"
    by (simp_all add: NewStore_def)
  from S have "distinct ?ids" by (simp add: strict_sorted_iff)
  moreover from G have "\<forall>i\<in>set ?ids. \<forall>e\<in>set rows. ev_id e < i"
    using last_id_ge by (meson le_less_trans)
  ultimately show ?thesis using S by blast
qed

theorem stash_ids_increase_witness:
  "sorted_wrt (<) (fst (run_ops demo_ops (NewStore [old_event])))
   \<and> distinct (fst (run_ops demo_ops (NewStore [old_event])))
   \<and> fst (run_ops demo_ops (NewStore [old_event])) = [6, 7, 8]
   \<and> ev_id old_event < 6"
proof -
  let ?ids = "fst (run_ops demo_ops (NewStore [old_event]))"
  note t = stash_ids_increase [of demo_ops "[old_event]"]
  have v: "?ids = [6, 7, 8]" by (simp add: store_defs)
  from t have "\<forall>i\<in>set ?ids. \<forall>e\<in>set [old_event]. ev_id e < i" by simp
  then have "ev_id old_event < 6" unfolding v by simp
  with t v show ?thesis by simp
qed

lemma persisted_Stash_mono: "persisted s pr \<Longrightarrow> persisted (snd (Store_Stash s x)) pr"
  by (auto simp: persisted_def Store_Stash_def Let_def list_ex_iff)

lemma persisted_Stash_self: "persisted (snd (Store_Stash s pr)) pr"
  by (simp add: persisted_def Store_Stash_def Let_def list_ex_iff)

lemma persisted_stash_all_mono: "persisted s pr \<Longrightarrow> persisted (stash_all xs s) pr"
  by (induction xs arbitrary: s) (simp_all add: persisted_Stash_mono)

lemma persisted_stash_all_mem: "pr \<in> set xs \<Longrightarrow> persisted (stash_all xs s) pr"
  by (induction xs arbitrary: s)
     (auto simp: persisted_Stash_self persisted_stash_all_mono)

text \<open>
  C4. For any store and any list of candidates \<open>C\<close>: after every item that
  \<open>WhichAreNew\<close> returns for \<open>C\<close> has been stashed, \<open>WhichAreNew\<close> returns nothing for
  \<open>C\<close>.
\<close>

theorem filter_stash_filter_empty:
  "Store_WhichAreNew (stash_all (Store_WhichAreNew s C) s) C = []"
proof -
  have "persisted (stash_all (Store_WhichAreNew s C) s) c" if "c \<in> set C" for c
  proof (cases "persisted s c")
    case True
    then show ?thesis by (rule persisted_stash_all_mono)
  next
    case False
    with that have "c \<in> set (Store_WhichAreNew s C)" by (simp add: Store_WhichAreNew_def)
    then show ?thesis by (rule persisted_stash_all_mem)
  qed
  then show ?thesis by (simp add: Store_WhichAreNew_def)
qed

theorem filter_stash_filter_empty_witness:
  "Store_WhichAreNew (NewStore [old_event]) [tesco_one, tesco_two, pr_three, tesco_two] =
     [tesco_two, pr_three, tesco_two]
   \<and> Store_WhichAreNew
       (stash_all
          (Store_WhichAreNew (NewStore [old_event]) [tesco_one, tesco_two, pr_three, tesco_two])
          (NewStore [old_event]))
       [tesco_one, tesco_two, pr_three, tesco_two] = []"
proof -
  have "Store_WhichAreNew (NewStore [old_event]) [tesco_one, tesco_two, pr_three, tesco_two] =
     [tesco_two, pr_three, tesco_two]"
    by (simp add: store_defs)
  then show ?thesis
    using filter_stash_filter_empty
      [of "NewStore [old_event]" "[tesco_one, tesco_two, pr_three, tesco_two]"]
    by (rule conjI)
qed

lemma Stash_sorted:
  "sorted_wrt (<) (map ev_id (db s)) \<Longrightarrow> sorted_wrt (<) (map ev_id (db (snd (Store_Stash s pr))))"
  using last_id_ge [of _ "db s"]
  by (auto simp: Store_Stash_def Let_def sorted_wrt_append less_Suc_eq_le)

lemma Stash_positive:
  "\<forall>e\<in>set (db s). 0 < ev_id e \<Longrightarrow> \<forall>e\<in>set (db (snd (Store_Stash s pr))). 0 < ev_id e"
  by (auto simp: Store_Stash_def Let_def)

lemma run_ops_sorted:
  "sorted_wrt (<) (map ev_id (db s)) \<Longrightarrow> sorted_wrt (<) (map ev_id (db (snd (run_ops ops s))))"
proof (induction ops arbitrary: s)
  case Nil
  then show ?case by simp
next
  case (Cons op ops)
  show ?case
  proof (cases op)
    case (Append pr)
    from Cons.IH [OF Stash_sorted [OF Cons.prems, of pr]] show ?thesis
      using Append by (simp only: run_ops_Append_snd)
  next
    case Restart
    then show ?thesis using Cons.IH [of "NewStore (db s)"] Cons.prems by (simp add: NewStore_def)
  qed
qed

lemma run_ops_positive:
  "\<forall>e\<in>set (db s). 0 < ev_id e \<Longrightarrow> \<forall>e\<in>set (db (snd (run_ops ops s))). 0 < ev_id e"
proof (induction ops arbitrary: s)
  case Nil
  then show ?case by simp
next
  case (Cons op ops)
  show ?case
  proof (cases op)
    case (Append pr)
    from Cons.IH [OF Stash_positive [OF Cons.prems, of pr]] show ?thesis
      using Append by (simp only: run_ops_Append_snd)
  next
    case Restart
    then show ?thesis using Cons.IH [of "NewStore (db s)"] Cons.prems by (simp add: NewStore_def)
  qed
qed

text \<open>
  C5. In any store built from the empty storage by calls of \<open>Stash\<close> and restarts, the
  replay of a topic since a cursor holds exactly the persisted events of that topic with an
  identifier greater than the cursor, none left out, in strictly ascending order of
  identifier.
\<close>

theorem replay_exact_ascending:
  "set (Store_Replay (snd (run_ops ops (NewStore []))) topic (Some cursor)) =
     {e \<in> set (db (snd (run_ops ops (NewStore [])))). ev_topic e = topic \<and> cursor < ev_id e}
   \<and> sorted_wrt (<) (map ev_id (Store_Replay (snd (run_ops ops (NewStore []))) topic (Some cursor)))"
proof -
  let ?s = "snd (run_ops ops (NewStore []))"
  have "sorted_wrt (<) (map ev_id (db ?s))"
    by (rule run_ops_sorted) (simp add: NewStore_def)
  then have "sorted_wrt (<) (map ev_id (Store_Replay ?s topic (Some cursor)))"
    by (simp add: Store_Replay_def sorted_wrt_map sorted_wrt_filter)
  moreover have "set (Store_Replay ?s topic (Some cursor)) =
     {e \<in> set (db ?s). ev_topic e = topic \<and> cursor < ev_id e}"
    by (auto simp: Store_Replay_def after_cursor_def)
  ultimately show ?thesis by blast
qed

theorem replay_exact_ascending_witness:
  "set (Store_Replay (snd (run_ops demo_ops (NewStore []))) ''tesco'' (Some 1)) =
     {e \<in> set (db (snd (run_ops demo_ops (NewStore [])))). ev_topic e = ''tesco'' \<and> 1 < ev_id e}
   \<and> sorted_wrt (<) (map ev_id (Store_Replay (snd (run_ops demo_ops (NewStore []))) ''tesco'' (Some 1)))
   \<and> map ev_id (Store_Replay (snd (run_ops demo_ops (NewStore []))) ''tesco'' (Some 1)) = [3]
   \<and> map ev_id (Store_Replay (snd (run_ops demo_ops (NewStore []))) ''tesco'' (Some 0)) = [1, 3]"
proof -
  have "map ev_id (Store_Replay (snd (run_ops demo_ops (NewStore []))) ''tesco'' (Some 1)) = [3]"
    and "map ev_id (Store_Replay (snd (run_ops demo_ops (NewStore []))) ''tesco'' (Some 0)) = [1, 3]"
    by (simp_all add: store_defs)
  with replay_exact_ascending [of demo_ops "''tesco''" 1] show ?thesis by blast
qed

section \<open>Properties of the broadcast hub\<close>

lemma publish_snoc:
  "publish topic ev (hub @ [sub]) =
   publish topic ev hub @
     [if sub_topic sub = topic then sub\<lparr>delivered := delivered sub @ [ev]\<rparr> else sub]"
  by (simp add: publish_def)

lemma publish_all_last:
  "last (publish_all pubs (hub @ [sub])) =
   sub\<lparr>delivered := delivered sub @ map snd (filter (\<lambda>(t, e). t = sub_topic sub) pubs)\<rparr>"
proof (induction pubs arbitrary: hub sub)
  case Nil
  show ?case by simp
next
  case (Cons p pubs)
  obtain t e where p: "p = (t, e)" by (cases p)
  show ?case
    using Cons.IH [of "publish t e hub"]
    by (simp add: p publish_snoc)
qed

text \<open>
  C1 (as amended). A subscriber that gives no resume identifier is sent no backlog: what
  it receives is exactly the events published on its topic after it subscribed, in order.
  A subscriber that gives the resume identifier 0 is first replayed every persisted event
  of its topic (identifiers start at 1, so all of them follow 0).
\<close>

theorem subscribe_live_only_or_replay:
  "delivered (last (publish_all pubs (subscribe s topic None hub))) =
     map snd (filter (\<lambda>(t, e). t = topic) pubs)
   \<and> delivered (last (subscribe (snd (run_ops ops (NewStore []))) topic (Some 0) hub)) =
     filter (\<lambda>e. ev_topic e = topic) (db (snd (run_ops ops (NewStore []))))"
proof -
  let ?s = "snd (run_ops ops (NewStore []))"
  have "\<forall>e\<in>set (db ?s). 0 < ev_id e"
    by (rule run_ops_positive) (simp add: NewStore_def)
  then have "Store_Replay ?s topic (Some 0) = filter (\<lambda>e. ev_topic e = topic) (db ?s)"
    unfolding Store_Replay_def after_cursor_def by (auto intro: filter_cong)
  then show ?thesis by (simp add: subscribe_def publish_all_last)
qed

theorem subscribe_live_only_or_replay_witness:
  "delivered (last (publish_all [(''waitrose'', old_event), (''tesco'', new_event)]
      (subscribe (NewStore [old_event]) ''tesco'' None []))) = [new_event]
   \<and> map ev_id (delivered (last (subscribe (snd (run_ops demo_ops (NewStore []))) ''tesco'' (Some 0) [])))
     = [1, 3]"
proof -
  note t = subscribe_live_only_or_replay
    [where pubs = "[(''waitrose'', old_event), (''tesco'', new_event)]"
       and s = "NewStore [old_event]" and topic = "''tesco''" and hub = "[]" and ops = demo_ops]
  have "map ev_id (filter (\<lambda>e. ev_topic e = ''tesco'') (db (snd (run_ops demo_ops (NewStore [])))))
        = [1, 3]"
    by (simp add: store_defs)
  with t show ?thesis by simp
qed

text \<open>
  C1 fails as stated for the resume identifier 0: with two events persisted for
  \<open>tesco\<close>, a subscriber connecting with cursor 0 is replayed both, identifiers 1 and 2.
\<close>

theorem zero_cursor_replays:
  "map ev_id
     (delivered (last (subscribe (stash_all [tesco_one, tesco_two] (NewStore [])) ''tesco'' (Some 0) [])))
   = [1, 2]"
  by (simp add: store_defs)

end
